theory Spec2Isabelle
  imports Main
begin

section \<open>Python values, errors and containers\<close>

text \<open>
  The values that travel through \<^verbatim>\<open>wily/state.py\<close>: the fields of a persisted
  index entry (read back from JSON) and of a \<^verbatim>\<open>Revision\<close>. Python does not check
  the annotated types of a dataclass, so a field holds whatever the entry held. The
  model covers \<^verbatim>\<open>None\<close>, integers, strings and lists; on these Python's \<^verbatim>\<open>==\<close> is
  structural equality. (Booleans and floats are left out: \<^verbatim>\<open>True == 1\<close> in Python.)
\<close>

datatype pyval = PNone | PInt int | PStr string | PList "pyval list"

text \<open>Python truthiness, as \<^verbatim>\<open>not x\<close> tests it.\<close>

fun truthy :: "pyval \<Rightarrow> bool" where
  "truthy PNone = False"
| "truthy (PInt i) = (i \<noteq> 0)"
| "truthy (PStr s) = (s \<noteq> [])"
| "truthy (PList xs) = (xs \<noteq> [])"

text \<open>A list cannot be a dictionary key (\<^verbatim>\<open>TypeError: unhashable type\<close>).\<close>

fun hashable :: "pyval \<Rightarrow> bool" where
  "hashable (PList xs) = False"
| "hashable v = True"

text \<open>
  The exceptions this module can raise or propagate. \<open>KeyError\<close> carries the missing key,
  \<open>CollaboratorError\<close> stands for whatever a collaborator (the cache store, archiver
  resolution) raises.
\<close>

datatype py_error = KeyError pyval | TypeError | IndexError | CollaboratorError string

definition bind_err :: "py_error + 'a \<Rightarrow> ('a \<Rightarrow> py_error + 'b) \<Rightarrow> py_error + 'b" where
  "bind_err m f = (case m of Inl e \<Rightarrow> Inl e | Inr x \<Rightarrow> f x)"

text \<open>A plain \<^verbatim>\<open>dict\<close> with string keys (a persisted entry): \<^verbatim>\<open>d[k]\<close>.\<close>

type_synonym entry = "string \<Rightarrow> pyval option"

definition dict_getitem :: "entry \<Rightarrow> string \<Rightarrow> py_error + pyval" where
  "dict_getitem d k = (case d k of None \<Rightarrow> Inl (KeyError (PStr k)) | Some v \<Rightarrow> Inr v)"

text \<open>
  \<^verbatim>\<open>collections.OrderedDict\<close>: the items in insertion order, keys unique. Assigning to
  a key that is present replaces the value where it stands; a new key goes to the end.
\<close>

type_synonym 'v odict = "(pyval \<times> 'v) list"

fun od_set :: "pyval \<Rightarrow> 'v \<Rightarrow> 'v odict \<Rightarrow> 'v odict" where
  "od_set k v [] = [(k, v)]"
| "od_set k v ((k', v') # kvs) =
     (if k' = k then (k', v) # kvs else (k', v') # od_set k v kvs)"

definition od_keys :: "'v odict \<Rightarrow> pyval list" where
  "od_keys od = map fst od"

definition od_values :: "'v odict \<Rightarrow> 'v list" where
  "od_values od = map snd od"

definition od_setitem :: "pyval \<Rightarrow> 'v \<Rightarrow> 'v odict \<Rightarrow> py_error + 'v odict" where
  "od_setitem k v od = (if hashable k then Inr (od_set k v od) else Inl TypeError)"

definition od_getitem :: "'v odict \<Rightarrow> pyval \<Rightarrow> py_error + 'v" where
  "od_getitem od k =
     (if hashable k then (case map_of od k of None \<Rightarrow> Inl (KeyError k) | Some v \<Rightarrow> Inr v)
      else Inl TypeError)"

definition od_contains :: "'v odict \<Rightarrow> pyval \<Rightarrow> py_error + bool" where
  "od_contains od k = (if hashable k then Inr (map_of od k \<noteq> None) else Inl TypeError)"

section \<open>Collaborators\<close>

text \<open>
  Modelled from the spec: \<^verbatim>\<open>wily.archivers.Revision\<close>, a dataclass whose declaration
  is outside this module. Its fields are the keyword arguments of the constructor call
  in \<^verbatim>\<open>Index.__init__\<close>, and \<^verbatim>\<open>dataclasses.asdict\<close> maps each field name to its value.
\<close>

record revision =
  key :: pyval
  author_name :: pyval
  author_email :: pyval
  date :: pyval
  message :: pyval

definition asdict :: "revision \<Rightarrow> entry" where
  "asdict r = [''key'' \<mapsto> key r, ''author_name'' \<mapsto> author_name r,
               ''author_email'' \<mapsto> author_email r, ''date'' \<mapsto> date r,
               ''message'' \<mapsto> message r]"

text \<open>
  Modelled from the spec: an archiver object, of which this module reads only
  \<^verbatim>\<open>.name\<close>.
\<close>

record archiver =
  name :: string

text \<open>
  Modelled from the spec: the cache store behind \<^verbatim>\<open>wily.cache\<close>. One store per
  configuration: whether its backing location exists, the archiver names it reports,
  and the persisted entry list of each archiver that has one. \<open>create_calls\<close> counts
  the invocations of \<^verbatim>\<open>cache.create\<close>, so that a creation call can be observed.
  The world also holds what \<^verbatim>\<open>logger.debug\<close> has written.
\<close>

record cache_store =
  store_exists :: bool
  create_calls :: nat
  archiver_names :: "string list"
  indexes :: "string \<Rightarrow> entry list option"

record 'c world =
  stores :: "'c \<Rightarrow> cache_store"
  debug_log :: "string list"

text \<open>Modelled from the spec: \<^verbatim>\<open>cache.has_index(config, archiverName) -> bool\<close>.\<close>

definition cache_has_index :: "'c world \<Rightarrow> 'c \<Rightarrow> string \<Rightarrow> bool" where
  "cache_has_index w config n = (indexes (stores w config) n \<noteq> None)"

text \<open>
  Modelled from the spec: \<^verbatim>\<open>cache.get_index(config, archiverName)\<close>, the persisted
  entry list in its order; a read of an index that is not there fails.
\<close>

definition cache_get_index :: "'c world \<Rightarrow> 'c \<Rightarrow> string \<Rightarrow> py_error + entry list" where
  "cache_get_index w config n =
     (case indexes (stores w config) n of
        None \<Rightarrow> Inl (CollaboratorError ''no index'')
      | Some es \<Rightarrow> Inr es)"

text \<open>
  Modelled from the spec: \<^verbatim>\<open>cache.store_index(config, archiver, data)\<close>, a total
  overwrite of the list persisted for this archiver.
\<close>

definition cache_store_index :: "'c world \<Rightarrow> 'c \<Rightarrow> archiver \<Rightarrow> entry list \<Rightarrow> 'c world" where
  "cache_store_index w config a es =
     w\<lparr>stores := (stores w)(config :=
          (stores w config)\<lparr>indexes := (indexes (stores w config))(name a \<mapsto> es)\<rparr>)\<rparr>"

text \<open>Modelled from the spec: \<^verbatim>\<open>cache.list_archivers(config)\<close>.\<close>

definition cache_list_archivers :: "'c world \<Rightarrow> 'c \<Rightarrow> string list" where
  "cache_list_archivers w config = archiver_names (stores w config)"

text \<open>Modelled from the spec: \<^verbatim>\<open>cache.exists(config) -> bool\<close>.\<close>

definition cache_exists :: "'c world \<Rightarrow> 'c \<Rightarrow> bool" where
  "cache_exists w config = store_exists (stores w config)"

text \<open>
  Modelled from the spec: \<^verbatim>\<open>cache.create(config)\<close> creates the backing location;
  afterwards it exists.
\<close>

definition cache_create :: "'c world \<Rightarrow> 'c \<Rightarrow> 'c world" where
  "cache_create w config =
     w\<lparr>stores := (stores w)(config :=
          (stores w config)\<lparr>store_exists := True,
                            create_calls := Suc (create_calls (stores w config))\<rparr>)\<rparr>"

text \<open>Modelled from the spec: \<^verbatim>\<open>logger.debug(msg)\<close>, a side channel.\<close>

definition logger_debug :: "string \<Rightarrow> 'c world \<Rightarrow> 'c world" where
  "logger_debug msg w = w\<lparr>debug_log := debug_log w @ [msg]\<rparr>"

section \<open>Index\<close>

text \<open>
  \<^verbatim>\<open>class Index\<close>. The attribute \<^verbatim>\<open>_revisions\<close> is the field \<open>revisions_od\<close>;
  \<open>operators\<close> starts as the class attribute \<^verbatim>\<open>None\<close>.
\<close>

record 'c Index =
  config :: 'c
  archiver :: archiver
  data :: "entry list"
  operators :: pyval
  revisions_od :: "revision odict"

text \<open>\<^verbatim>\<open>Index.add\<close>: \<^verbatim>\<open>self._revisions[revision.key] = revision\<close>.\<close>

definition Index_add :: "'c Index \<Rightarrow> revision \<Rightarrow> py_error + 'c Index" where
  "Index_add self r =
     bind_err (od_setitem (key r) r (revisions_od self))
       (\<lambda>od. Inr (self\<lparr>revisions_od := od\<rparr>))"

text \<open>
  The \<^verbatim>\<open>Revision(...)\<close> call of the loop body: the keyword arguments are evaluated in
  order, and the first missing key raises.
\<close>

definition entry_revision :: "entry \<Rightarrow> py_error + revision" where
  "entry_revision d =
     bind_err (dict_getitem d ''revision'') (\<lambda>k.
     bind_err (dict_getitem d ''author_name'') (\<lambda>an.
     bind_err (dict_getitem d ''author_email'') (\<lambda>ae.
     bind_err (dict_getitem d ''date'') (\<lambda>dt.
     bind_err (dict_getitem d ''message'') (\<lambda>m.
       Inr \<lparr>key = k, author_name = an, author_email = ae, date = dt, message = m\<rparr>)))))"

text \<open>One pass of the loop body of \<^verbatim>\<open>Index.__init__\<close> (lines 37 to 39).\<close>

definition load_entry :: "'c Index \<Rightarrow> entry \<Rightarrow> py_error + 'c Index" where
  "load_entry self d =
     bind_err
       (if \<not> truthy (operators self)
        then bind_err (dict_getitem d ''operators'') (\<lambda>ops. Inr (self\<lparr>operators := ops\<rparr>))
        else Inr self)
       (\<lambda>self1. bind_err (entry_revision d) (\<lambda>r. Index_add self1 r))"

text \<open>The loop \<^verbatim>\<open>for d in self.data\<close>.\<close>

fun load_entries :: "'c Index \<Rightarrow> entry list \<Rightarrow> py_error + 'c Index" where
  "load_entries self [] = Inr self"
| "load_entries self (d # ds) =
     (case load_entry self d of Inl e \<Rightarrow> Inl e | Inr self1 \<Rightarrow> load_entries self1 ds)"

text \<open>\<^verbatim>\<open>Index.__init__(config, archiver)\<close>, reading the cache store of world \<open>w\<close>.\<close>

definition Index_init :: "'c world \<Rightarrow> 'c \<Rightarrow> archiver \<Rightarrow> py_error + 'c Index" where
  "Index_init w cfg a =
     bind_err
       (if cache_has_index w cfg (name a) then cache_get_index w cfg (name a) else Inr [])
       (\<lambda>es. load_entries
          \<lparr>config = cfg, archiver = a, data = es, operators = PNone, revisions_od = []\<rparr> es)"

text \<open>\<^verbatim>\<open>Index.__len__\<close>, and the properties \<^verbatim>\<open>revisions\<close> and \<^verbatim>\<open>revision_keys\<close>.\<close>

definition Index_len :: "'c Index \<Rightarrow> nat" where
  "Index_len self = length (revisions_od self)"

definition revisions :: "'c Index \<Rightarrow> revision list" where
  "revisions self = od_values (revisions_od self)"

definition revision_keys :: "'c Index \<Rightarrow> pyval list" where
  "revision_keys self = od_keys (revisions_od self)"

text \<open>
  The argument of \<^verbatim>\<open>Index.__contains__\<close> is any Python object: a \<^verbatim>\<open>Revision\<close> or
  another value.
\<close>

datatype pyobj = RevisionObj revision | ValueObj pyval

fun Index_contains :: "'c Index \<Rightarrow> pyobj \<Rightarrow> py_error + bool" where
  "Index_contains self (RevisionObj item) = od_contains (revisions_od self) (key item)"
| "Index_contains self (ValueObj (PStr item)) = od_contains (revisions_od self) (PStr item)"
| "Index_contains self (ValueObj item) = Inl TypeError"

text \<open>\<^verbatim>\<open>Index.__getitem__\<close>: \<^verbatim>\<open>self._revisions[index]\<close>.\<close>

definition Index_getitem :: "'c Index \<Rightarrow> pyval \<Rightarrow> py_error + revision" where
  "Index_getitem self i = od_getitem (revisions_od self) i"

text \<open>\<^verbatim>\<open>Index.save\<close>: the records in their order, each through \<^verbatim>\<open>asdict\<close>.\<close>

definition Index_save :: "'c Index \<Rightarrow> 'c world \<Rightarrow> 'c world" where
  "Index_save self w =
     cache_store_index w (config self) (archiver self)
       (map asdict (od_values (revisions_od self)))"

section \<open>State\<close>

record 'c State =
  state_config :: 'c
  archivers :: "string list"
  index :: "string \<Rightarrow> 'c Index option"
  default_archiver :: string

text \<open>
  The loop of \<^verbatim>\<open>State.__init__\<close> (lines 121 and 122); \<open>resolve\<close> is
  \<^verbatim>\<open>wily.archivers.resolve_archiver\<close>, which fails on a name it does not know.
\<close>

fun index_loop ::
  "'c world \<Rightarrow> (string \<Rightarrow> py_error + archiver) \<Rightarrow> 'c \<Rightarrow> string list \<Rightarrow>
   (string \<Rightarrow> 'c Index option) \<Rightarrow> py_error + (string \<Rightarrow> 'c Index option)" where
  "index_loop w resolve cfg [] ix = Inr ix"
| "index_loop w resolve cfg (n # ns) ix =
     (case resolve n of
        Inl e \<Rightarrow> Inl e
      | Inr a \<Rightarrow>
          (case Index_init w cfg a of
             Inl e \<Rightarrow> Inl e
           | Inr i \<Rightarrow> index_loop w resolve cfg ns (ix(n \<mapsto> i))))"

text \<open>
  \<^verbatim>\<open>State.__init__(config, archiver=None)\<close>; \<^verbatim>\<open>self.archivers[0]\<close> raises
  \<^verbatim>\<open>IndexError\<close> on an empty list.
\<close>

definition State_init ::
  "'c world \<Rightarrow> (string \<Rightarrow> py_error + archiver) \<Rightarrow> 'c \<Rightarrow> archiver option \<Rightarrow>
   py_error + 'c State" where
  "State_init w resolve cfg ao =
     (let scope = (case ao of Some a \<Rightarrow> [name a] | None \<Rightarrow> cache_list_archivers w cfg)
      in bind_err (index_loop w resolve cfg scope Map.empty) (\<lambda>ix.
           case scope of
             [] \<Rightarrow> Inl IndexError
           | n # ns \<Rightarrow>
               Inr \<lparr>state_config = cfg, archivers = scope, index = ix,
                    default_archiver = n\<rparr>))"

text \<open>\<^verbatim>\<open>State.ensure_exists\<close>.\<close>

definition ensure_exists :: "'c State \<Rightarrow> 'c world \<Rightarrow> 'c world" where
  "ensure_exists self w =
     (if \<not> cache_exists w (state_config self)
      then logger_debug ''Created wily cache''
             (cache_create (logger_debug ''Wily cache not found, creating.'' w)
                (state_config self))
      else w)"

section \<open>Auxiliary definitions for the statements\<close>

text \<open>A sequence of \<^verbatim>\<open>add\<close> calls; the first that raises ends it.\<close>

fun add_all :: "'c Index \<Rightarrow> revision list \<Rightarrow> py_error + 'c Index" where
  "add_all self [] = Inr self"
| "add_all self (r # rs) =
     (case Index_add self r of Inl e \<Rightarrow> Inl e | Inr self1 \<Rightarrow> add_all self1 rs)"

text \<open>
  What holds of every \<^verbatim>\<open>Index\<close> the module can build: the keys of the ordered
  mapping are unique and hashable.
\<close>

definition Index_inv :: "'c Index \<Rightarrow> bool" where
  "Index_inv self =
     (distinct (od_keys (revisions_od self)) \<and> list_all hashable (od_keys (revisions_od self)))"

text \<open>
  A persisted entry that carries all six fields, with a hashable revision key: the
  loop body cannot raise on it.
\<close>

definition entry_ok :: "entry \<Rightarrow> bool" where
  "entry_ok d =
     (d ''operators'' \<noteq> None \<and> d ''author_name'' \<noteq> None \<and> d ''author_email'' \<noteq> None
      \<and> d ''date'' \<noteq> None \<and> d ''message'' \<noteq> None
      \<and> (case d ''revision'' of None \<Rightarrow> False | Some k \<Rightarrow> hashable k))"

text \<open>The entry has an \<^verbatim>\<open>operators\<close> field whose value Python takes as true.\<close>

definition operators_truthy :: "entry \<Rightarrow> bool" where
  "operators_truthy d = (case d ''operators'' of None \<Rightarrow> False | Some v \<Rightarrow> truthy v)"

subsection \<open>Concrete inputs\<close>

text \<open>
  The persisted layout of an entry (the six fields \<^verbatim>\<open>Index.__init__\<close> reads), two
  archivers, and the records of the scenarios.
\<close>

definition persisted_entry :: "pyval \<Rightarrow> revision \<Rightarrow> entry" where
  "persisted_entry ops r =
     [''revision'' \<mapsto> key r, ''author_name'' \<mapsto> author_name r,
      ''author_email'' \<mapsto> author_email r, ''date'' \<mapsto> date r, ''message'' \<mapsto> message r,
      ''operators'' \<mapsto> ops]"

definition git :: archiver where
  "git = \<lparr>name = ''git''\<rparr>"

definition svn :: archiver where
  "svn = \<lparr>name = ''svn''\<rparr>"

definition resolve_by_name :: "string \<Rightarrow> py_error + archiver" where
  "resolve_by_name n = Inr \<lparr>name = n\<rparr>"

definition raw_ops :: pyval where
  "raw_ops = PList [PStr ''raw'']"

definition rev_abc :: revision where
  "rev_abc = \<lparr>key = PStr ''abc123'', author_name = PStr ''A'', author_email = PStr ''a@x.com'',
               date = PStr ''2024-01-01'', message = PStr ''init''\<rparr>"

definition rev_def :: revision where
  "rev_def = \<lparr>key = PStr ''def456'', author_name = PStr ''B'', author_email = PStr ''b@x.com'',
               date = PStr ''2024-01-02'', message = PStr ''second''\<rparr>"

definition rev_abc2 :: revision where
  "rev_abc2 = rev_abc\<lparr>message := PStr ''amended''\<rparr>"

definition empty_index :: "unit Index" where
  "empty_index = \<lparr>config = (), archiver = git, data = [], operators = PNone, revisions_od = []\<rparr>"

definition two_index :: "unit Index" where
  "two_index =
     empty_index\<lparr>revisions_od := [(PStr ''abc123'', rev_abc), (PStr ''def456'', rev_def)]\<rparr>"

text \<open>A world whose store exists and holds the list \<open>es\<close> as the index of \<^verbatim>\<open>git\<close>.\<close>

definition world_with :: "entry list \<Rightarrow> unit world" where
  "world_with es =
     \<lparr>stores = (\<lambda>c. \<lparr>store_exists = True, create_calls = 0, archiver_names = [''git''],
                      indexes = [''git'' \<mapsto> es]\<rparr>),
      debug_log = []\<rparr>"

text \<open>A world with no index at all, and nothing yet written to it.\<close>

definition fresh_world :: "unit world" where
  "fresh_world =
     \<lparr>stores = (\<lambda>c. \<lparr>store_exists = True, create_calls = 0, archiver_names = [''git''],
                      indexes = Map.empty\<rparr>),
      debug_log = []\<rparr>"

text \<open>A store that reports the archivers \<^verbatim>\<open>git\<close> and \<^verbatim>\<open>svn\<close>, neither with an index.\<close>

definition gs_store :: cache_store where
  "gs_store = \<lparr>store_exists = True, create_calls = 0, archiver_names = [''git'', ''svn''],
               indexes = Map.empty\<rparr>"

definition gs_world :: "unit world" where
  "gs_world = \<lparr>stores = (\<lambda>c. gs_store), debug_log = []\<rparr>"

definition gs_state :: "unit State" where
  "gs_state =
     \<lparr>state_config = (), archivers = [''git'', ''svn''],
      index = [''git'' \<mapsto> \<lparr>config = (), archiver = \<lparr>name = ''git''\<rparr>, data = [],
                            operators = PNone, revisions_od = []\<rparr>,
               ''svn'' \<mapsto> \<lparr>config = (), archiver = \<lparr>name = ''svn''\<rparr>, data = [],
                            operators = PNone, revisions_od = []\<rparr>],
      default_archiver = ''git''\<rparr>"

definition svn_state :: "unit State" where
  "svn_state =
     \<lparr>state_config = (), archivers = [''svn''],
      index = [''svn'' \<mapsto> \<lparr>config = (), archiver = \<lparr>name = ''svn''\<rparr>, data = [],
                            operators = PNone, revisions_od = []\<rparr>],
      default_archiver = ''svn''\<rparr>"

text \<open>A store that reports \<^verbatim>\<open>git\<close> and \<^verbatim>\<open>svn\<close> and holds a persisted index of two
  entries for \<^verbatim>\<open>git\<close>.\<close>

definition loaded_store :: cache_store where
  "loaded_store =
     \<lparr>store_exists = True, create_calls = 0, archiver_names = [''git'', ''svn''],
      indexes = [''git'' \<mapsto> [persisted_entry raw_ops rev_abc, persisted_entry raw_ops rev_def]]\<rparr>"

definition loaded_world :: "unit world" where
  "loaded_world = \<lparr>stores = (\<lambda>c. loaded_store), debug_log = []\<rparr>"

text \<open>A store whose backing location is missing, and which reports no archiver.\<close>

definition missing_store :: cache_store where
  "missing_store = \<lparr>store_exists = False, create_calls = 0, archiver_names = [],
                    indexes = Map.empty\<rparr>"

definition missing_world :: "unit world" where
  "missing_world = \<lparr>stores = (\<lambda>c. missing_store), debug_log = []\<rparr>"

section \<open>Facts about the ordered mapping\<close>

lemma bind_err_Inr_iff: "bind_err m f = Inr y \<longleftrightarrow> (\<exists>x. m = Inr x \<and> f x = Inr y)"
  by (cases m) (simp_all add: bind_err_def)

lemma od_set_keys:
  "map fst (od_set k v od) = (if k \<in> set (map fst od) then map fst od else map fst od @ [k])"
  by (induction od) (auto simp: rev_image_eqI)

lemma od_set_fresh: "k \<notin> set (map fst od) \<Longrightarrow> od_set k v od = od @ [(k, v)]"
  by (induction od) auto

lemma od_set_lookup: "map_of (od_set k v od) = (map_of od)(k \<mapsto> v)"
  by (induction od) (auto simp: fun_upd_twist)

lemma od_set_length:
  "length (od_set k v od) = (if k \<in> set (map fst od) then length od else Suc (length od))"
  by (induction od) (auto simp: rev_image_eqI)

text \<open>Adding records whose keys are new and pairwise distinct appends them in order.\<close>

lemma fold_od_set_fresh:
  "distinct (map key rs) \<Longrightarrow> set (map key rs) \<inter> set (map fst od) = {} \<Longrightarrow>
   fold (\<lambda>r. od_set (key r) r) rs od = od @ map (\<lambda>r. (key r, r)) rs"
proof (induction rs arbitrary: od)
  case Nil
  then show ?case by simp
next
  case (Cons r rs)
  from Cons.prems have fresh: "key r \<notin> set (map fst od)" by auto
  have step: "od_set (key r) r od = od @ [(key r, r)]"
    using fresh by (rule od_set_fresh)
  have "set (map key rs) \<inter> set (map fst (od @ [(key r, r)])) = {}"
    using Cons.prems by auto
  with Cons.prems Cons.IH [of "od @ [(key r, r)]"] step show ?case by simp
qed

section \<open>Facts about \<open>Index\<close>\<close>

lemma Index_add_Inr_iff:
  "Index_add self r = Inr self' \<longleftrightarrow>
     hashable (key r) \<and> self' = self\<lparr>revisions_od := od_set (key r) r (revisions_od self)\<rparr>"
  by (auto simp: Index_add_def bind_err_def od_setitem_def)

lemma add_all_result:
  "list_all hashable (map key rs) \<Longrightarrow>
   add_all self rs =
     Inr (self\<lparr>revisions_od := fold (\<lambda>r. od_set (key r) r) rs (revisions_od self)\<rparr>)"
proof (induction rs arbitrary: self)
  case Nil
  show ?case by simp
next
  case (Cons r rs)
  from Cons.prems have hr: "hashable (key r)" and hrs: "list_all hashable (map key rs)"
    by simp_all
  have "Index_add self r = Inr (self\<lparr>revisions_od := od_set (key r) r (revisions_od self)\<rparr>)"
    using hr by (simp add: Index_add_Inr_iff)
  then show ?case using Cons.IH [OF hrs] by simp
qed

lemma Index_add_inv: "Index_inv self \<Longrightarrow> Index_add self r = Inr self' \<Longrightarrow> Index_inv self'"
  by (auto simp: Index_add_Inr_iff Index_inv_def od_keys_def od_set_keys)

text \<open>One pass of the loop body that does not raise.\<close>

lemma load_entry_Inr:
  assumes "load_entry self d = Inr self'"
  shows "\<exists>r. entry_revision d = Inr r \<and> hashable (key r)
           \<and> revisions_od self' = od_set (key r) r (revisions_od self)
           \<and> (if truthy (operators self) then operators self' = operators self
               else d ''operators'' = Some (operators self'))"
  using assms
  by (auto simp: load_entry_def bind_err_Inr_iff Index_add_Inr_iff dict_getitem_def
      split: if_splits option.splits)

lemma entry_revision_key: "entry_revision d = Inr r \<Longrightarrow> d ''revision'' = Some (key r)"
  by (auto simp: entry_revision_def bind_err_Inr_iff dict_getitem_def split: option.splits)

lemma load_entry_total:
  assumes "entry_ok d"
  shows "\<exists>self'. load_entry self d = Inr self'"
  using assms
  by (auto simp: entry_ok_def load_entry_def entry_revision_def bind_err_def dict_getitem_def
      Index_add_def od_setitem_def split: option.splits)

lemma load_entries_total: "list_all entry_ok es \<Longrightarrow> \<exists>self'. load_entries self es = Inr self'"
proof (induction es arbitrary: self)
  case Nil
  show ?case by simp
next
  case (Cons d ds)
  from Cons.prems have "entry_ok d" and rest: "list_all entry_ok ds" by simp_all
  then obtain self1 where "load_entry self d = Inr self1"
    using load_entry_total by blast
  with Cons.IH [OF rest, of self1] show ?case by simp
qed

text \<open>What a load that does not raise leaves in the mapping: the records of the
  entries, added in order.\<close>

lemma load_entries_revisions:
  "load_entries self es = Inr self' \<Longrightarrow>
   \<exists>rs. map entry_revision es = map Inr rs \<and> list_all hashable (map key rs)
        \<and> revisions_od self' = fold (\<lambda>r. od_set (key r) r) rs (revisions_od self)"
proof (induction es arbitrary: self)
  case Nil
  then show ?case by simp
next
  case (Cons d ds)
  from Cons.prems obtain self1 where one: "load_entry self d = Inr self1"
    and rest: "load_entries self1 ds = Inr self'"
    by (auto split: sum.splits)
  from load_entry_Inr [OF one] obtain r where r: "entry_revision d = Inr r" "hashable (key r)"
    "revisions_od self1 = od_set (key r) r (revisions_od self)" by blast
  from Cons.IH [OF rest] obtain rs where rs: "map entry_revision ds = map Inr rs"
    "list_all hashable (map key rs)"
    "revisions_od self' = fold (\<lambda>r. od_set (key r) r) rs (revisions_od self1)" by blast
  have "map entry_revision (d # ds) = map Inr (r # rs)
        \<and> list_all hashable (map key (r # rs))
        \<and> revisions_od self' = fold (\<lambda>r. od_set (key r) r) (r # rs) (revisions_od self)"
    using r rs by simp
  then show ?case by blast
qed

text \<open>The tag during the pass: a truthy tag stays, a falsy one is replaced by the next
  entry's value.\<close>

lemma load_entries_operators_kept:
  "truthy (operators self) \<Longrightarrow> load_entries self es = Inr self' \<Longrightarrow>
   operators self' = operators self"
proof (induction es arbitrary: self)
  case Nil
  then show ?case by simp
next
  case (Cons d ds)
  from Cons.prems obtain self1 where one: "load_entry self d = Inr self1"
    and rest: "load_entries self1 ds = Inr self'"
    by (auto split: sum.splits)
  from load_entry_Inr [OF one] Cons.prems(1) have same: "operators self1 = operators self"
    by auto
  with Cons.IH [OF _ rest] Cons.prems(1) show ?case by simp
qed

lemma load_entries_operators_first_truthy:
  "\<not> truthy (operators self) \<Longrightarrow> \<not> list_ex operators_truthy pre \<Longrightarrow> operators_truthy d \<Longrightarrow>
   load_entries self (pre @ d # post) = Inr self' \<Longrightarrow> Some (operators self') = d ''operators''"
proof (induction pre arbitrary: self)
  case Nil
  from Nil.prems obtain self1 where one: "load_entry self d = Inr self1"
    and rest: "load_entries self1 post = Inr self'"
    by (auto split: sum.splits)
  from load_entry_Inr [OF one] Nil.prems(1) have tag: "d ''operators'' = Some (operators self1)"
    by auto
  with Nil.prems(3) have "truthy (operators self1)" by (simp add: operators_truthy_def)
  from load_entries_operators_kept [OF this rest] tag show ?case by simp
next
  case (Cons e pre)
  from Cons.prems obtain self1 where one: "load_entry self e = Inr self1"
    and rest: "load_entries self1 (pre @ d # post) = Inr self'"
    by (auto split: sum.splits)
  from load_entry_Inr [OF one] Cons.prems(1) have "e ''operators'' = Some (operators self1)"
    by auto
  moreover from Cons.prems(2) have "\<not> operators_truthy e"
    and pre: "\<not> list_ex operators_truthy pre"
    by simp_all
  ultimately have "\<not> truthy (operators self1)" by (simp add: operators_truthy_def)
  from Cons.IH [OF this pre Cons.prems(3) rest] show ?case .
qed

lemma Index_init_persisted:
  "indexes (stores w cfg) (name a) = Some es \<Longrightarrow>
   Index_init w cfg a =
     load_entries \<lparr>config = cfg, archiver = a, data = es, operators = PNone, revisions_od = []\<rparr> es"
  by (simp add: Index_init_def cache_has_index_def cache_get_index_def bind_err_def)

text \<open>The invariant holds of every index that construction returns.\<close>

lemma load_entry_inv: "Index_inv self \<Longrightarrow> load_entry self d = Inr self' \<Longrightarrow> Index_inv self'"
proof -
  assume inv: "Index_inv self" and one: "load_entry self d = Inr self'"
  from load_entry_Inr [OF one] obtain r where "hashable (key r)"
    and "revisions_od self' = od_set (key r) r (revisions_od self)" by blast
  with inv show ?thesis
    by (auto simp: Index_inv_def od_keys_def od_set_keys)
qed

lemma load_entries_inv:
  "Index_inv self \<Longrightarrow> load_entries self es = Inr self' \<Longrightarrow> Index_inv self'"
proof (induction es arbitrary: self)
  case Nil
  then show ?case by simp
next
  case (Cons d ds)
  from Cons.prems obtain self1 where one: "load_entry self d = Inr self1"
    and rest: "load_entries self1 ds = Inr self'"
    by (auto split: sum.splits)
  from load_entry_inv [OF Cons.prems(1) one] rest show ?case by (rule Cons.IH)
qed

lemma Index_init_inv: "Index_init w cfg a = Inr idx \<Longrightarrow> Index_inv idx"
proof -
  assume "Index_init w cfg a = Inr idx"
  then obtain es where
    "load_entries \<lparr>config = cfg, archiver = a, data = es, operators = PNone, revisions_od = []\<rparr> es
       = Inr idx"
    by (auto simp: Index_init_def bind_err_Inr_iff)
  moreover have
    "Index_inv \<lparr>config = cfg, archiver = a, data = es, operators = PNone, revisions_od = []\<rparr>"
    by (simp add: Index_inv_def od_keys_def)
  ultimately show ?thesis by (rule load_entries_inv [rotated])
qed

text \<open>
  What \<^verbatim>\<open>save\<close> writes cannot be read back: the first saved entry has no
  \<^verbatim>\<open>operators\<close> field (and no \<^verbatim>\<open>revision\<close> field), so a fresh index over it raises.
\<close>

lemma save_then_reload_fails:
  assumes "revisions_od idx \<noteq> []"
  shows "Index_init (Index_save idx w) (config idx) (archiver idx)
           = Inl (KeyError (PStr ''operators''))"
proof -
  from assms obtain k r od where od: "revisions_od idx = (k, r) # od"
    by (cases "revisions_od idx") auto
  have "indexes (stores (Index_save idx w) (config idx)) (name (archiver idx))
          = Some (asdict r # map asdict (od_values od))"
    by (simp add: Index_save_def cache_store_index_def od od_values_def)
  from Index_init_persisted [OF this] show ?thesis
    by (simp add: load_entry_def bind_err_def dict_getitem_def asdict_def)
qed

lemma asdict_has_no_revision_field:
  "entry_revision (asdict r) = Inl (KeyError (PStr ''revision''))"
  by (simp add: entry_revision_def bind_err_def dict_getitem_def asdict_def)

section \<open>Facts about \<open>State\<close>\<close>

lemma index_loop_result:
  "index_loop w resolve cfg ns ix = Inr ix' \<Longrightarrow>
     dom ix' = dom ix \<union> set ns
     \<and> (\<forall>n\<in>set ns. \<exists>a i. resolve n = Inr a \<and> Index_init w cfg a = Inr i \<and> ix' n = Some i)
     \<and> (\<forall>n. n \<notin> set ns \<longrightarrow> ix' n = ix n)"
proof (induction ns arbitrary: ix)
  case Nil
  then show ?case by simp
next
  case (Cons n ns)
  from Cons.prems obtain a i where ra: "resolve n = Inr a"
    and ia: "Index_init w cfg a = Inr i"
    and rest: "index_loop w resolve cfg ns (ix(n \<mapsto> i)) = Inr ix'"
    by (auto split: sum.splits)
  note ih = Cons.IH [OF rest]
  from ih have d: "dom ix' = dom ix \<union> set (n # ns)" by auto
  from ih have keep: "\<And>m. m \<notin> set ns \<Longrightarrow> ix' m = (ix(n \<mapsto> i)) m" by blast
  have here: "\<exists>a i. resolve n = Inr a \<and> Index_init w cfg a = Inr i \<and> ix' n = Some i"
  proof (cases "n \<in> set ns")
    case True
    with ih show ?thesis by blast
  next
    case False
    with keep [of n] ra ia show ?thesis by simp
  qed
  have other: "\<forall>m. m \<notin> set (n # ns) \<longrightarrow> ix' m = ix m"
    using keep by simp
  from d here other ih show ?case by simp
qed

text \<open>When construction returns.\<close>

lemma Index_init_total:
  assumes "case indexes (stores w cfg) (name a) of None \<Rightarrow> True | Some es \<Rightarrow> list_all entry_ok es"
  shows "\<exists>i. Index_init w cfg a = Inr i"
proof (cases "indexes (stores w cfg) (name a)")
  case None
  then show ?thesis by (simp add: Index_init_def cache_has_index_def bind_err_def)
next
  case (Some es)
  with assms have "list_all entry_ok es" by simp
  from load_entries_total [OF this] Index_init_persisted [OF Some] show ?thesis by simp
qed

lemma index_loop_total:
  "\<forall>n\<in>set ns. \<exists>a i. resolve n = Inr a \<and> Index_init w cfg a = Inr i \<Longrightarrow>
   \<exists>ix'. index_loop w resolve cfg ns ix = Inr ix'"
proof (induction ns arbitrary: ix)
  case Nil
  show ?case by simp
next
  case (Cons n ns)
  from Cons.prems obtain a i where "resolve n = Inr a" and "Index_init w cfg a = Inr i"
    by auto
  moreover from Cons.prems
  have "\<forall>m\<in>set ns. \<exists>a i. resolve m = Inr a \<and> Index_init w cfg a = Inr i" by simp
  from Cons.IH [OF this, of "ix(n \<mapsto> i)"]
  obtain ix' where "index_loop w resolve cfg ns (ix(n \<mapsto> i)) = Inr ix'" by blast
  ultimately show ?case by simp
qed

lemma State_init_props:
  assumes ok: "State_init w resolve cfg ao = Inr st"
  shows "archivers st = (case ao of Some a \<Rightarrow> [name a] | None \<Rightarrow> cache_list_archivers w cfg)
         \<and> archivers st \<noteq> [] \<and> default_archiver st = hd (archivers st)
         \<and> state_config st = cfg
         \<and> dom (index st) = set (archivers st)
         \<and> (\<forall>n\<in>set (archivers st).
               \<exists>a i. resolve n = Inr a \<and> Index_init w cfg a = Inr i \<and> index st n = Some i)"
proof -
  define scope
    where "scope = (case ao of Some a \<Rightarrow> [name a] | None \<Rightarrow> cache_list_archivers w cfg)"
  have unfolded: "State_init w resolve cfg ao =
      bind_err (index_loop w resolve cfg scope Map.empty) (\<lambda>ix.
        case scope of [] \<Rightarrow> Inl IndexError
        | n # ns \<Rightarrow> Inr \<lparr>state_config = cfg, archivers = scope, index = ix,
                           default_archiver = n\<rparr>)"
    unfolding State_init_def Let_def scope_def by (rule refl)
  from ok obtain ix where loop: "index_loop w resolve cfg scope Map.empty = Inr ix"
    and fin: "(case scope of [] \<Rightarrow> Inl IndexError
               | n # ns \<Rightarrow> Inr \<lparr>state_config = cfg, archivers = scope, index = ix,
                                  default_archiver = n\<rparr>) = Inr st"
    unfolding unfolded bind_err_Inr_iff by blast
  from fin obtain n ns where sc: "scope = n # ns"
    and st: "st = \<lparr>state_config = cfg, archivers = scope, index = ix, default_archiver = n\<rparr>"
    by (cases scope) auto
  from index_loop_result [OF loop]
  have "dom ix = set scope"
    and "\<forall>n\<in>set scope. \<exists>a i. resolve n = Inr a \<and> Index_init w cfg a = Inr i \<and> ix n = Some i"
    by simp_all
  with st sc show ?thesis by (simp add: scope_def)
qed

lemma State_init_total:
  assumes nonempty: "(case ao of Some a \<Rightarrow> [name a] | None \<Rightarrow> cache_list_archivers w cfg) \<noteq> []"
    and each: "\<forall>n\<in>set (case ao of Some a \<Rightarrow> [name a] | None \<Rightarrow> cache_list_archivers w cfg).
                 \<exists>a i. resolve n = Inr a \<and> Index_init w cfg a = Inr i"
  shows "\<exists>st. State_init w resolve cfg ao = Inr st"
proof -
  define scope
    where "scope = (case ao of Some a \<Rightarrow> [name a] | None \<Rightarrow> cache_list_archivers w cfg)"
  have unfolded: "State_init w resolve cfg ao =
      bind_err (index_loop w resolve cfg scope Map.empty) (\<lambda>ix.
        case scope of [] \<Rightarrow> Inl IndexError
        | n # ns \<Rightarrow> Inr \<lparr>state_config = cfg, archivers = scope, index = ix,
                           default_archiver = n\<rparr>)"
    unfolding State_init_def Let_def scope_def by (rule refl)
  from each have "\<forall>n\<in>set scope. \<exists>a i. resolve n = Inr a \<and> Index_init w cfg a = Inr i"
    by (simp add: scope_def)
  from index_loop_total [OF this, of Map.empty]
  obtain ix where loop: "index_loop w resolve cfg scope Map.empty = Inr ix" by blast
  from nonempty obtain n ns where "scope = n # ns"
    by (cases scope) (auto simp: scope_def)
  with loop show ?thesis unfolding unfolded by (simp add: bind_err_def)
qed

section \<open>The claims\<close>

subsection \<open>C1: save and reload\<close>

text \<open>
  C1 (round-trip persistence) does not hold of the code. On a store with no index, a
  fresh index is empty with the tag unset; one revision is added and saved. A fresh
  index over the same store and archiver then raises \<^verbatim>\<open>KeyError('operators')\<close>:
  \<^verbatim>\<open>save\<close> writes the fields of \<^verbatim>\<open>asdict\<close> (\<^verbatim>\<open>key\<close>, no \<^verbatim>\<open>operators\<close>), while
  \<^verbatim>\<open>__init__\<close> reads \<^verbatim>\<open>operators\<close> and \<^verbatim>\<open>revision\<close>.
\<close>

theorem roundtrip_reload_raises_keyerror:
  "Index_init fresh_world () git = Inr empty_index
   \<and> Index_len empty_index = 0 \<and> operators empty_index = PNone
   \<and> Index_add empty_index rev_abc
       = Inr (empty_index\<lparr>revisions_od := [(PStr ''abc123'', rev_abc)]\<rparr>)
   \<and> Index_init
        (Index_save (empty_index\<lparr>revisions_od := [(PStr ''abc123'', rev_abc)]\<rparr>) fresh_world)
        () git
      = Inl (KeyError (PStr ''operators''))
   \<and> entry_revision (asdict rev_abc) = Inl (KeyError (PStr ''revision''))"
proof -
  have a: "Index_init fresh_world () git = Inr empty_index"
    by (simp add: Index_init_def fresh_world_def git_def cache_has_index_def bind_err_def
        empty_index_def)
  have b: "Index_len empty_index = 0 \<and> operators empty_index = PNone"
    by (simp add: Index_len_def empty_index_def)
  have c: "Index_add empty_index rev_abc
             = Inr (empty_index\<lparr>revisions_od := [(PStr ''abc123'', rev_abc)]\<rparr>)"
    by (simp add: Index_add_def od_setitem_def bind_err_def empty_index_def rev_abc_def)
  have d: "Index_init
        (Index_save (empty_index\<lparr>revisions_od := [(PStr ''abc123'', rev_abc)]\<rparr>) fresh_world)
        () git = Inl (KeyError (PStr ''operators''))"
    using save_then_reload_fails
      [of "empty_index\<lparr>revisions_od := [(PStr ''abc123'', rev_abc)]\<rparr>" fresh_world]
    by (simp add: empty_index_def)
  from a b c d asdict_has_no_revision_field [of rev_abc] show ?thesis by simp
qed

subsection \<open>C2: the operators tag\<close>

text \<open>
  C2 as stated fails: the guard is \<^verbatim>\<open>if not self.operators\<close>, so a first record
  whose operators value is falsy (here the empty list) does not fix the tag, and the
  second record's value replaces it.
\<close>

theorem operators_overwritten_counterexample:
  "cache_get_index
       (world_with [persisted_entry (PList []) rev_abc, persisted_entry raw_ops rev_def])
       () (name git)
     = Inr [persisted_entry (PList []) rev_abc, persisted_entry raw_ops rev_def]
   \<and> dict_getitem (persisted_entry (PList []) rev_abc) ''operators'' = Inr (PList [])
   \<and> map_sum id operators
       (Index_init
          (world_with [persisted_entry (PList []) rev_abc, persisted_entry raw_ops rev_def])
          () git)
     = Inr (PList [PStr ''raw''])"
  by (simp add: Index_init_def world_with_def git_def cache_has_index_def cache_get_index_def
      bind_err_def load_entry_def dict_getitem_def persisted_entry_def entry_revision_def
      Index_add_def od_setitem_def rev_abc_def rev_def_def raw_ops_def)

text \<open>
  C2, amended: the tag is set from the first persisted record whose operators value is
  truthy, and no later record of the pass overwrites it: whenever construction returns
  an index, its tag is that record's value. Construction does return one when every
  entry carries its six fields and a hashable key.
\<close>

theorem operators_first_truthy:
  assumes persisted: "indexes (stores w cfg) (name a) = Some (pre @ d # post)"
    and before: "\<not> list_ex operators_truthy pre"
    and first: "operators_truthy d"
  shows "(\<forall>idx. Index_init w cfg a = Inr idx \<longrightarrow> Some (operators idx) = d ''operators'')
         \<and> (list_all entry_ok (pre @ d # post) \<longrightarrow> (\<exists>idx. Index_init w cfg a = Inr idx))"
proof -
  note init = Index_init_persisted [OF persisted]
  have "Some (operators idx) = d ''operators''" if "Index_init w cfg a = Inr idx" for idx
  proof -
    from that init have "load_entries
        \<lparr>config = cfg, archiver = a, data = pre @ d # post, operators = PNone,
         revisions_od = []\<rparr> (pre @ d # post) = Inr idx" by simp
    from load_entries_operators_first_truthy [OF _ before first this] show ?thesis by simp
  qed
  moreover have "\<exists>idx. Index_init w cfg a = Inr idx" if "list_all entry_ok (pre @ d # post)"
    using load_entries_total [OF that] init by simp
  ultimately show ?thesis by blast
qed

theorem operators_first_truthy_witness:
  "map_sum id operators
     (Index_init
        (world_with [persisted_entry (PList []) rev_abc, persisted_entry raw_ops rev_def,
                     persisted_entry (PList [PStr ''mi'']) rev_abc2]) () git)
   = Inr raw_ops"
proof -
  let ?e1 = "persisted_entry (PList []) rev_abc"
  let ?e2 = "persisted_entry raw_ops rev_def"
  let ?e3 = "persisted_entry (PList [PStr ''mi'']) rev_abc2"
  have p: "indexes (stores (world_with [?e1, ?e2, ?e3]) ()) (name git)
             = Some ([?e1] @ ?e2 # [?e3])"
    by (simp add: world_with_def git_def)
  have b: "\<not> list_ex operators_truthy [?e1]"
    by (simp add: operators_truthy_def persisted_entry_def)
  have f: "operators_truthy ?e2"
    by (simp add: operators_truthy_def persisted_entry_def raw_ops_def)
  have ok: "list_all entry_ok ([?e1] @ ?e2 # [?e3])"
    by (simp add: entry_ok_def persisted_entry_def rev_abc_def rev_def_def rev_abc2_def)
  from operators_first_truthy [OF p b f] ok
  obtain idx where i: "Index_init (world_with [?e1, ?e2, ?e3]) () git = Inr idx"
    and o: "Some (operators idx) = ?e2 ''operators''" by blast
  from o have "operators idx = raw_ops" by (simp add: persisted_entry_def)
  with i show ?thesis by simp
qed

subsection \<open>C3: adding distinct keys\<close>

text \<open>
  C3: on an index with no revisions, a sequence of \<^verbatim>\<open>add\<close> calls with pairwise
  distinct (hashable) keys succeeds; the length is then the number of keys added, and
  \<^verbatim>\<open>revision_keys\<close> and \<^verbatim>\<open>revisions\<close> list them in insertion order.
\<close>

theorem add_distinct_keys_length_and_order:
  assumes empty: "revisions_od idx = []"
    and dist: "distinct (map key rs)"
    and hash: "list_all hashable (map key rs)"
  shows "\<exists>idx'. add_all idx rs = Inr idx' \<and> Index_len idx' = length rs
           \<and> Index_len idx' = card (set (map key rs))
           \<and> revision_keys idx' = map key rs \<and> revisions idx' = rs"
proof -
  have "fold (\<lambda>r. od_set (key r) r) rs (revisions_od idx) = map (\<lambda>r. (key r, r)) rs"
    using fold_od_set_fresh [OF dist, of "revisions_od idx"] empty by simp
  then have res: "add_all idx rs = Inr (idx\<lparr>revisions_od := map (\<lambda>r. (key r, r)) rs\<rparr>)"
    using add_all_result [OF hash, of idx] by simp
  have card: "card (set (map key rs)) = length rs"
    using distinct_card [OF dist] by simp
  show ?thesis
    using res card
    by (simp add: Index_len_def revision_keys_def revisions_def od_keys_def od_values_def comp_def)
qed

theorem add_distinct_keys_witness:
  "add_all empty_index [rev_abc, rev_def] = Inr two_index \<and> Index_len two_index = 2
     \<and> revision_keys two_index = [PStr ''abc123'', PStr ''def456'']"
proof -
  have e: "revisions_od empty_index = []" by (simp add: empty_index_def)
  have d: "distinct (map key [rev_abc, rev_def])" by (simp add: rev_abc_def rev_def_def)
  have h: "list_all hashable (map key [rev_abc, rev_def])" by (simp add: rev_abc_def rev_def_def)
  from add_distinct_keys_length_and_order [OF e d h]
  obtain idx' where r: "add_all empty_index [rev_abc, rev_def] = Inr idx'"
    and l: "Index_len idx' = length [rev_abc, rev_def]"
    and k: "revision_keys idx' = map key [rev_abc, rev_def]" by blast
  have "add_all empty_index [rev_abc, rev_def] = Inr two_index"
    by (simp add: Index_add_def bind_err_def od_setitem_def empty_index_def two_index_def
        rev_abc_def rev_def_def)
  with r have "idx' = two_index" by simp
  with l k show ?thesis using r by (simp add: rev_abc_def rev_def_def)
qed

subsection \<open>C4: adding a key again\<close>

text \<open>
  C4: when the key of a revision is already in the index, \<^verbatim>\<open>add\<close> succeeds, leaves
  \<^verbatim>\<open>revision_keys\<close> (so every position) and the length as they were, and
  \<^verbatim>\<open>__getitem__\<close> of that key then returns the new record.
\<close>

theorem readd_keeps_position_replaces_value:
  assumes inv: "Index_inv idx" and present: "key r \<in> set (revision_keys idx)"
  shows "\<exists>idx'. Index_add idx r = Inr idx' \<and> revision_keys idx' = revision_keys idx
           \<and> Index_len idx' = Index_len idx \<and> Index_getitem idx' (key r) = Inr r"
proof -
  from inv present have h: "hashable (key r)"
    by (auto simp: Index_inv_def revision_keys_def list_all_iff)
  let ?idx' = "idx\<lparr>revisions_od := od_set (key r) r (revisions_od idx)\<rparr>"
  have a: "Index_add idx r = Inr ?idx'" using h by (simp add: Index_add_Inr_iff)
  have k: "revision_keys ?idx' = revision_keys idx"
    using present by (simp add: revision_keys_def od_keys_def od_set_keys)
  have l: "Index_len ?idx' = Index_len idx"
    using present by (simp add: Index_len_def revision_keys_def od_keys_def od_set_length)
  have g: "Index_getitem ?idx' (key r) = Inr r"
    using h by (simp add: Index_getitem_def od_getitem_def od_set_lookup)
  from a k l g show ?thesis by blast
qed

theorem readd_witness:
  "key rev_abc2 \<in> set (revision_keys two_index)
   \<and> map_sum id revision_keys (Index_add two_index rev_abc2)
       = Inr [PStr ''abc123'', PStr ''def456'']
   \<and> bind_err (Index_add two_index rev_abc2) (\<lambda>i. Index_getitem i (PStr ''abc123''))
       = Inr rev_abc2"
proof -
  have inv: "Index_inv two_index"
    by (simp add: Index_inv_def two_index_def empty_index_def od_keys_def)
  have p: "key rev_abc2 \<in> set (revision_keys two_index)"
    by (simp add: two_index_def empty_index_def revision_keys_def od_keys_def rev_abc2_def
        rev_abc_def)
  from readd_keeps_position_replaces_value [OF inv p]
  obtain idx' where a: "Index_add two_index rev_abc2 = Inr idx'"
    and k: "revision_keys idx' = revision_keys two_index"
    and g: "Index_getitem idx' (key rev_abc2) = Inr rev_abc2" by blast
  have "revision_keys two_index = [PStr ''abc123'', PStr ''def456'']"
    by (simp add: two_index_def empty_index_def revision_keys_def od_keys_def)
  moreover have "key rev_abc2 = PStr ''abc123''" by (simp add: rev_abc2_def rev_abc_def)
  ultimately show ?thesis using p a k g by (simp add: bind_err_def)
qed

subsection \<open>C5: the order after load\<close>

text \<open>
  C5 as stated fails on a persisted list that names a revision twice: the mapping keeps
  one item per key, at the place of the first occurrence and with the record of the
  last, so neither \<^verbatim>\<open>revision_keys\<close> nor \<^verbatim>\<open>revisions\<close> follows the persisted list.
\<close>

theorem load_order_counterexample:
  "cache_get_index
       (world_with [persisted_entry raw_ops rev_abc, persisted_entry raw_ops rev_def,
                    persisted_entry raw_ops rev_abc2]) () (name git)
     = Inr [persisted_entry raw_ops rev_abc, persisted_entry raw_ops rev_def,
            persisted_entry raw_ops rev_abc2]
   \<and> entry_revision (persisted_entry raw_ops rev_abc) = Inr rev_abc
   \<and> entry_revision (persisted_entry raw_ops rev_def) = Inr rev_def
   \<and> entry_revision (persisted_entry raw_ops rev_abc2) = Inr rev_abc2
   \<and> map_sum id revisions
       (Index_init
          (world_with [persisted_entry raw_ops rev_abc, persisted_entry raw_ops rev_def,
                       persisted_entry raw_ops rev_abc2]) () git)
     = Inr [rev_abc2, rev_def]
   \<and> map_sum id revision_keys
       (Index_init
          (world_with [persisted_entry raw_ops rev_abc, persisted_entry raw_ops rev_def,
                       persisted_entry raw_ops rev_abc2]) () git)
     = Inr [PStr ''abc123'', PStr ''def456'']"
  by (simp add: Index_init_def world_with_def git_def cache_has_index_def cache_get_index_def
      bind_err_def load_entry_def dict_getitem_def persisted_entry_def entry_revision_def
      Index_add_def od_setitem_def rev_abc_def rev_def_def rev_abc2_def raw_ops_def
      revisions_def revision_keys_def od_values_def od_keys_def)

text \<open>
  C5, amended: for a persisted list whose revision keys are pairwise distinct, every
  index that construction returns has \<^verbatim>\<open>revision_keys\<close> and \<^verbatim>\<open>revisions\<close> in the
  order of the persisted list, one item per entry. Construction does return one when
  every entry carries its six fields and a hashable key.
\<close>

theorem load_order_distinct_keys:
  assumes persisted: "indexes (stores w cfg) (name a) = Some es"
    and dist: "distinct (map (\<lambda>d. d ''revision'') es)"
  shows "(\<forall>idx. Index_init w cfg a = Inr idx \<longrightarrow>
            map Some (revision_keys idx) = map (\<lambda>d. d ''revision'') es
            \<and> map Inr (revisions idx) = map entry_revision es
            \<and> Index_len idx = length es)
         \<and> (list_all entry_ok es \<longrightarrow> (\<exists>idx. Index_init w cfg a = Inr idx))"
proof -
  note init = Index_init_persisted [OF persisted]
  have order: "map Some (revision_keys idx) = map (\<lambda>d. d ''revision'') es
               \<and> map Inr (revisions idx) = map entry_revision es \<and> Index_len idx = length es"
    if ok: "Index_init w cfg a = Inr idx" for idx
  proof -
    from ok init load_entries_revisions [of _ es idx]
    obtain rs where rs: "map entry_revision es = map Inr rs"
      and od: "revisions_od idx = fold (\<lambda>r. od_set (key r) r) rs []" by fastforce
    have len: "length rs = length es"
      using arg_cong [OF rs, of length] by simp
    have each: "(es ! i) ''revision'' = Some (key (rs ! i))" if "i < length es" for i
    proof -
      from that len have "entry_revision (es ! i) = Inr (rs ! i)"
        using arg_cong [OF rs, of "\<lambda>xs. xs ! i"] by simp
      then show ?thesis by (rule entry_revision_key)
    qed
    have keys: "map (\<lambda>d. d ''revision'') es = map Some (map key rs)"
      using len each by (simp add: list_eq_iff_nth_eq)
    from dist have "distinct (map Some (map key rs))"
      unfolding keys .
    then have "distinct (map key rs)"
      by (simp only: distinct_map)
    from fold_od_set_fresh [OF this, of "[]"] od
    have "revisions_od idx = map (\<lambda>r. (key r, r)) rs" by simp
    then show ?thesis
      using keys rs len
      by (simp add: revision_keys_def revisions_def Index_len_def od_keys_def od_values_def
          comp_def)
  qed
  moreover have "\<exists>idx. Index_init w cfg a = Inr idx" if "list_all entry_ok es"
    using load_entries_total [OF that] init by simp
  ultimately show ?thesis by blast
qed

theorem load_order_witness:
  "map_sum id revision_keys
     (Index_init (world_with [persisted_entry raw_ops rev_def, persisted_entry raw_ops rev_abc])
        () git)
   = Inr [PStr ''def456'', PStr ''abc123'']"
proof -
  let ?e1 = "persisted_entry raw_ops rev_def"
  let ?e2 = "persisted_entry raw_ops rev_abc"
  have p: "indexes (stores (world_with [?e1, ?e2]) ()) (name git) = Some [?e1, ?e2]"
    by (simp add: world_with_def git_def)
  have d: "distinct (map (\<lambda>d. d ''revision'') [?e1, ?e2])"
    by (simp add: persisted_entry_def rev_abc_def rev_def_def)
  have ok: "list_all entry_ok [?e1, ?e2]"
    by (simp add: entry_ok_def persisted_entry_def rev_abc_def rev_def_def)
  from load_order_distinct_keys [OF p d] ok
  obtain idx where i: "Index_init (world_with [?e1, ?e2]) () git = Inr idx"
    and k: "map Some (revision_keys idx) = map (\<lambda>d. d ''revision'') [?e1, ?e2]" by blast
  from k have "revision_keys idx = [PStr ''def456'', PStr ''abc123'']"
    by (cases "revision_keys idx") (auto simp: persisted_entry_def rev_abc_def rev_def_def)
  with i show ?thesis by simp
qed

subsection \<open>C6: membership\<close>

text \<open>
  C6: \<^verbatim>\<open>__contains__\<close> of a key string and of a revision record with that key
  return the same boolean, namely whether the key is among \<^verbatim>\<open>revision_keys\<close>; of a
  value that is neither a string nor a revision record it raises \<^verbatim>\<open>TypeError\<close>.
\<close>

theorem contains_key_and_record_agree:
  "(key r = PStr k \<longrightarrow>
      Index_contains idx (RevisionObj r) = Index_contains idx (ValueObj (PStr k))
      \<and> Index_contains idx (ValueObj (PStr k)) = Inr (PStr k \<in> set (revision_keys idx)))
   \<and> ((\<forall>s. v \<noteq> PStr s) \<longrightarrow> Index_contains idx (ValueObj v) = Inl TypeError)"
proof -
  have a: "Index_contains idx (ValueObj (PStr k)) = Inr (PStr k \<in> set (revision_keys idx))"
    using map_of_eq_None_iff [of "revisions_od idx" "PStr k"]
    by (auto simp: od_contains_def revision_keys_def od_keys_def)
  have b: "Index_contains idx (ValueObj v) = Inl TypeError" if "\<forall>s. v \<noteq> PStr s"
    using that by (cases v) simp_all
  show ?thesis using a b by simp
qed

theorem contains_witness:
  "Index_contains two_index (RevisionObj rev_abc2) = Inr True
   \<and> Index_contains two_index (ValueObj (PStr ''abc123'')) = Inr True
   \<and> Index_contains two_index (ValueObj (PStr ''zzz'')) = Inr False
   \<and> Index_contains two_index (ValueObj (PInt 7)) = Inl TypeError"
proof -
  have k: "key rev_abc2 = PStr ''abc123''" by (simp add: rev_abc2_def rev_abc_def)
  have n: "\<forall>s. PInt 7 \<noteq> PStr s" by simp
  have keys: "revision_keys two_index = [PStr ''abc123'', PStr ''def456'']"
    by (simp add: two_index_def empty_index_def revision_keys_def od_keys_def)
  from contains_key_and_record_agree [of rev_abc2 "''abc123''" two_index "PInt 7"] k n
  have "Index_contains two_index (RevisionObj rev_abc2)
          = Index_contains two_index (ValueObj (PStr ''abc123''))"
    and "Index_contains two_index (ValueObj (PStr ''abc123''))
          = Inr (PStr ''abc123'' \<in> set (revision_keys two_index))"
    and "Index_contains two_index (ValueObj (PInt 7)) = Inl TypeError" by simp_all
  moreover have "Index_contains two_index (ValueObj (PStr ''zzz'')) = Inr False"
    by (simp add: od_contains_def two_index_def empty_index_def)
  ultimately show ?thesis using keys by simp
qed

subsection \<open>C7: lookup\<close>

text \<open>
  C7: for a (hashable) key, \<^verbatim>\<open>__getitem__\<close> returns a record stored under it when the
  key is in the index, and raises \<^verbatim>\<open>KeyError\<close> of that key when it is not; no other
  value is returned for an absent key.
\<close>

theorem getitem_present_or_keyerror:
  assumes "hashable k"
  shows "(k \<in> set (revision_keys idx) \<longrightarrow>
            (\<exists>r. Index_getitem idx k = Inr r \<and> (k, r) \<in> set (revisions_od idx)))
         \<and> (k \<notin> set (revision_keys idx) \<longrightarrow> Index_getitem idx k = Inl (KeyError k))"
proof (cases "map_of (revisions_od idx) k")
  case None
  then have "k \<notin> set (revision_keys idx)"
    by (simp add: revision_keys_def od_keys_def map_of_eq_None_iff)
  with None assms show ?thesis by (simp add: Index_getitem_def od_getitem_def)
next
  case (Some r)
  then have "(k, r) \<in> set (revisions_od idx)" by (rule map_of_SomeD)
  moreover from this have "k \<in> set (revision_keys idx)"
    by (force simp: revision_keys_def od_keys_def)
  ultimately show ?thesis using Some assms by (simp add: Index_getitem_def od_getitem_def)
qed

theorem getitem_witness:
  "Index_getitem two_index (PStr ''def456'') = Inr rev_def
   \<and> Index_getitem two_index (PStr ''zzz'') = Inl (KeyError (PStr ''zzz''))"
proof -
  have keys: "revision_keys two_index = [PStr ''abc123'', PStr ''def456'']"
    by (simp add: two_index_def empty_index_def revision_keys_def od_keys_def)
  have od: "revisions_od two_index = [(PStr ''abc123'', rev_abc), (PStr ''def456'', rev_def)]"
    by (simp add: two_index_def empty_index_def)
  from getitem_present_or_keyerror [of "PStr ''def456''" two_index] keys
  obtain r where "Index_getitem two_index (PStr ''def456'') = Inr r"
    and "(PStr ''def456'', r) \<in> set (revisions_od two_index)" by auto
  then have p: "Index_getitem two_index (PStr ''def456'') = Inr rev_def"
    using od by auto
  from getitem_present_or_keyerror [of "PStr ''zzz''" two_index] keys
  have "Index_getitem two_index (PStr ''zzz'') = Inl (KeyError (PStr ''zzz''))" by simp
  with p show ?thesis by simp
qed

subsection \<open>C8: the scope of a State\<close>

text \<open>
  C8: every State that construction returns has as \<^verbatim>\<open>archivers\<close> the one name of the
  archiver supplied, or else the names the cache store reports; the list is not empty,
  \<^verbatim>\<open>default_archiver\<close> is its first name, and \<^verbatim>\<open>index\<close> holds, for exactly the
  scoped names (one Index for each distinct name), the Index constructed for the
  archiver resolved from the name. Construction returns a State exactly when the scope
  is not empty and, for every scoped name, the archiver resolves and its Index can be
  constructed.
\<close>

theorem state_scope_default_and_indexes:
  "(\<forall>st. State_init w resolve cfg ao = Inr st \<longrightarrow>
      archivers st = (case ao of Some a \<Rightarrow> [name a] | None \<Rightarrow> cache_list_archivers w cfg)
      \<and> archivers st \<noteq> [] \<and> default_archiver st = hd (archivers st)
      \<and> state_config st = cfg
      \<and> dom (index st) = set (archivers st)
      \<and> card (dom (index st)) = length (remdups (archivers st))
      \<and> (\<forall>n\<in>set (archivers st).
            \<exists>a i. resolve n = Inr a \<and> Index_init w cfg a = Inr i \<and> index st n = Some i))
   \<and> ((case ao of Some a \<Rightarrow> [name a] | None \<Rightarrow> cache_list_archivers w cfg) \<noteq> []
        \<and> (\<forall>n\<in>set (case ao of Some a \<Rightarrow> [name a] | None \<Rightarrow> cache_list_archivers w cfg).
              \<exists>a i. resolve n = Inr a \<and> Index_init w cfg a = Inr i)
       \<longrightarrow> (\<exists>st. State_init w resolve cfg ao = Inr st))
   \<and> ((\<exists>st. State_init w resolve cfg ao = Inr st) \<longrightarrow>
        (case ao of Some a \<Rightarrow> [name a] | None \<Rightarrow> cache_list_archivers w cfg) \<noteq> []
        \<and> (\<forall>n\<in>set (case ao of Some a \<Rightarrow> [name a] | None \<Rightarrow> cache_list_archivers w cfg).
              \<exists>a i. resolve n = Inr a \<and> Index_init w cfg a = Inr i))"
proof -
  have props: "archivers st = (case ao of Some a \<Rightarrow> [name a] | None \<Rightarrow> cache_list_archivers w cfg)
      \<and> archivers st \<noteq> [] \<and> default_archiver st = hd (archivers st)
      \<and> state_config st = cfg
      \<and> dom (index st) = set (archivers st)
      \<and> card (dom (index st)) = length (remdups (archivers st))
      \<and> (\<forall>n\<in>set (archivers st).
            \<exists>a i. resolve n = Inr a \<and> Index_init w cfg a = Inr i \<and> index st n = Some i)"
    if "State_init w resolve cfg ao = Inr st" for st
  proof -
    note p = State_init_props [OF that]
    from p have d: "dom (index st) = set (archivers st)" by blast
    have "card (dom (index st)) = length (remdups (archivers st))"
      unfolding d by (simp add: length_remdups_card_conv)
    with p show ?thesis by blast
  qed
  have total: "\<exists>st. State_init w resolve cfg ao = Inr st"
    if "(case ao of Some a \<Rightarrow> [name a] | None \<Rightarrow> cache_list_archivers w cfg) \<noteq> []"
      and "\<forall>n\<in>set (case ao of Some a \<Rightarrow> [name a] | None \<Rightarrow> cache_list_archivers w cfg).
              \<exists>a i. resolve n = Inr a \<and> Index_init w cfg a = Inr i"
    using State_init_total [OF that] .
  have only: "(case ao of Some a \<Rightarrow> [name a] | None \<Rightarrow> cache_list_archivers w cfg) \<noteq> []
        \<and> (\<forall>n\<in>set (case ao of Some a \<Rightarrow> [name a] | None \<Rightarrow> cache_list_archivers w cfg).
              \<exists>a i. resolve n = Inr a \<and> Index_init w cfg a = Inr i)"
    if "\<exists>st. State_init w resolve cfg ao = Inr st"
  proof -
    from that obtain st where ok: "State_init w resolve cfg ao = Inr st" by blast
    note p = State_init_props [OF ok]
    from p have sc: "(case ao of Some a \<Rightarrow> [name a] | None \<Rightarrow> cache_list_archivers w cfg)
                       = archivers st" by simp
    from p have "archivers st \<noteq> []"
      and "\<forall>n\<in>set (archivers st). \<exists>a i. resolve n = Inr a \<and> Index_init w cfg a = Inr i"
      by blast+
    then show ?thesis unfolding sc by blast
  qed
  from props total only show ?thesis by blast
qed

theorem state_scope_witness:
  "State_init gs_world resolve_by_name () None = Inr gs_state
   \<and> archivers gs_state = [''git'', ''svn''] \<and> default_archiver gs_state = ''git''
   \<and> dom (index gs_state) = {''git'', ''svn''}
   \<and> State_init gs_world resolve_by_name () (Some svn) = Inr svn_state
   \<and> archivers svn_state = [''svn''] \<and> default_archiver svn_state = ''svn''
   \<and> dom (index svn_state) = {''svn''}
   \<and> (\<exists>st. State_init loaded_world resolve_by_name () None = Inr st
         \<and> archivers st = [''git'', ''svn''] \<and> default_archiver st = ''git''
         \<and> dom (index st) = {''git'', ''svn''}
         \<and> map_option revision_keys (index st ''git'') = Some [PStr ''abc123'', PStr ''def456'']
         \<and> map_option revisions (index st ''git'') = Some [rev_abc, rev_def]
         \<and> map_option operators (index st ''git'') = Some raw_ops
         \<and> map_option Index_len (index st ''svn'') = Some 0)"
proof -
  note thm0 = state_scope_default_and_indexes [of gs_world resolve_by_name "()" None]
  note thm1 = state_scope_default_and_indexes [of gs_world resolve_by_name "()" "Some svn"]
  note thm2 = state_scope_default_and_indexes [of loaded_world resolve_by_name "()" None]
  have ok: "State_init gs_world resolve_by_name () None = Inr gs_state"
    by (simp add: State_init_def cache_list_archivers_def gs_world_def gs_store_def bind_err_def
        resolve_by_name_def Index_init_def cache_has_index_def gs_state_def)
  from thm0 [THEN conjunct1, rule_format, OF ok]
  have "archivers gs_state = cache_list_archivers gs_world ()"
    and "default_archiver gs_state = hd (archivers gs_state)"
    and "dom (index gs_state) = set (archivers gs_state)" by simp_all
  then have all_names: "archivers gs_state = [''git'', ''svn''] \<and> default_archiver gs_state = ''git''
      \<and> dom (index gs_state) = {''git'', ''svn''}"
    by (simp add: cache_list_archivers_def gs_world_def gs_store_def)
  have ok1: "State_init gs_world resolve_by_name () (Some svn) = Inr svn_state"
    by (simp add: State_init_def gs_world_def gs_store_def bind_err_def svn_def
        resolve_by_name_def Index_init_def cache_has_index_def svn_state_def)
  from thm1 [THEN conjunct1, rule_format, OF ok1]
  have "archivers svn_state = [name svn]"
    and "default_archiver svn_state = hd (archivers svn_state)"
    and "dom (index svn_state) = set (archivers svn_state)" by simp_all
  then have one_name: "archivers svn_state = [''svn''] \<and> default_archiver svn_state = ''svn''
      \<and> dom (index svn_state) = {''svn''}"
    by (simp add: svn_def)
  have scope: "cache_list_archivers loaded_world () = [''git'', ''svn'']"
    by (simp add: cache_list_archivers_def loaded_world_def loaded_store_def)
  have git_index: "Index_init loaded_world () \<lparr>name = ''git''\<rparr> =
      Inr \<lparr>config = (), archiver = \<lparr>name = ''git''\<rparr>,
           data = [persisted_entry raw_ops rev_abc, persisted_entry raw_ops rev_def],
           operators = raw_ops,
           revisions_od = [(PStr ''abc123'', rev_abc), (PStr ''def456'', rev_def)]\<rparr>"
    by (simp add: Index_init_def loaded_world_def loaded_store_def cache_has_index_def
        cache_get_index_def bind_err_def load_entry_def dict_getitem_def persisted_entry_def
        entry_revision_def Index_add_def od_setitem_def rev_abc_def rev_def_def raw_ops_def)
  have svn_index: "Index_init loaded_world () \<lparr>name = ''svn''\<rparr> =
      Inr \<lparr>config = (), archiver = \<lparr>name = ''svn''\<rparr>, data = [], operators = PNone,
           revisions_od = []\<rparr>"
    by (simp add: Index_init_def loaded_world_def loaded_store_def cache_has_index_def
        bind_err_def)
  have pre: "(case None of Some a \<Rightarrow> [name a] | None \<Rightarrow> cache_list_archivers loaded_world ())
               \<noteq> []
      \<and> (\<forall>n\<in>set (case None of Some a \<Rightarrow> [name a]
                      | None \<Rightarrow> cache_list_archivers loaded_world ()).
            \<exists>a i. resolve_by_name n = Inr a \<and> Index_init loaded_world () a = Inr i)"
    using git_index svn_index by (simp add: scope resolve_by_name_def)
  from thm2 [THEN conjunct2, THEN conjunct1, rule_format, OF pre]
  obtain st where ok2: "State_init loaded_world resolve_by_name () None = Inr st" ..
  from thm2 [THEN conjunct1, rule_format, OF ok2] scope
  have names: "archivers st = [''git'', ''svn'']"
    and first: "default_archiver st = hd (archivers st)"
    and dom: "dom (index st) = set (archivers st)"
    and each: "\<forall>n\<in>set (archivers st).
                 \<exists>a i. resolve_by_name n = Inr a \<and> Index_init loaded_world () a = Inr i
                       \<and> index st n = Some i"
    by simp_all
  from each names git_index
  have g: "index st ''git'' =
      Some \<lparr>config = (), archiver = \<lparr>name = ''git''\<rparr>,
           data = [persisted_entry raw_ops rev_abc, persisted_entry raw_ops rev_def],
           operators = raw_ops,
           revisions_od = [(PStr ''abc123'', rev_abc), (PStr ''def456'', rev_def)]\<rparr>"
    by (auto simp: resolve_by_name_def)
  from each names svn_index
  have s: "index st ''svn'' =
      Some \<lparr>config = (), archiver = \<lparr>name = ''svn''\<rparr>, data = [], operators = PNone,
           revisions_od = []\<rparr>"
    by (auto simp: resolve_by_name_def)
  from first names have c1: "default_archiver st = ''git''" by simp
  from dom names have c2: "dom (index st) = {''git'', ''svn''}" by simp
  have c3: "map_option revision_keys (index st ''git'') = Some [PStr ''abc123'', PStr ''def456'']"
    unfolding g by (simp add: revision_keys_def od_keys_def)
  have c4: "map_option revisions (index st ''git'') = Some [rev_abc, rev_def]"
    unfolding g by (simp add: revisions_def od_values_def)
  have c5: "map_option operators (index st ''git'') = Some raw_ops"
    unfolding g by simp
  have c6: "map_option Index_len (index st ''svn'') = Some 0"
    unfolding s by (simp add: Index_len_def)
  from ok2 names c1 c2 c3 c4 c5 c6
  have loaded: "\<exists>st. State_init loaded_world resolve_by_name () None = Inr st
         \<and> archivers st = [''git'', ''svn''] \<and> default_archiver st = ''git''
         \<and> dom (index st) = {''git'', ''svn''}
         \<and> map_option revision_keys (index st ''git'') = Some [PStr ''abc123'', PStr ''def456'']
         \<and> map_option revisions (index st ''git'') = Some [rev_abc, rev_def]
         \<and> map_option operators (index st ''git'') = Some raw_ops
         \<and> map_option Index_len (index st ''svn'') = Some 0"
    by (intro exI [of _ st] conjI)
  show ?thesis
    by (intro conjI) (rule ok all_names [THEN conjunct1] all_names [THEN conjunct2, THEN conjunct1]
        all_names [THEN conjunct2, THEN conjunct2] ok1 one_name [THEN conjunct1]
        one_name [THEN conjunct2, THEN conjunct1] one_name [THEN conjunct2, THEN conjunct2]
        loaded)+
qed

subsection \<open>C9: ensure_exists\<close>

text \<open>
  C9: when the backing location exists, \<^verbatim>\<open>ensure_exists\<close> changes nothing (no call of
  \<^verbatim>\<open>cache.create\<close>, nothing raised); after any call the location exists, so two
  consecutive calls invoke \<^verbatim>\<open>cache.create\<close> at most once and the second changes
  nothing.
\<close>

theorem ensure_exists_idempotent:
  "(cache_exists w (state_config st) \<longrightarrow>
      ensure_exists st w = w
      \<and> create_calls (stores (ensure_exists st w) (state_config st))
          = create_calls (stores w (state_config st)))
   \<and> cache_exists (ensure_exists st w) (state_config st)
   \<and> create_calls (stores (ensure_exists st (ensure_exists st w)) (state_config st))
       \<le> Suc (create_calls (stores w (state_config st)))
   \<and> ensure_exists st (ensure_exists st w) = ensure_exists st w"
proof -
  have ex: "cache_exists (ensure_exists st w) (state_config st)"
    by (simp add: ensure_exists_def cache_exists_def cache_create_def logger_debug_def)
  then have twice: "ensure_exists st (ensure_exists st w) = ensure_exists st w"
    by (simp add: ensure_exists_def [of st "ensure_exists st w"])
  have once: "create_calls (stores (ensure_exists st w) (state_config st))
                \<le> Suc (create_calls (stores w (state_config st)))"
    by (simp add: ensure_exists_def cache_exists_def cache_create_def logger_debug_def)
  have same: "ensure_exists st w = w" if "cache_exists w (state_config st)"
    using that by (simp add: ensure_exists_def)
  from ex twice once same show ?thesis by simp
qed

theorem ensure_exists_witness:
  "cache_exists gs_world (state_config gs_state)
   \<and> ensure_exists gs_state gs_world = gs_world
   \<and> \<not> cache_exists missing_world (state_config gs_state)
   \<and> create_calls (stores (ensure_exists gs_state (ensure_exists gs_state missing_world)) ()) = 1"
proof -
  have e: "cache_exists gs_world (state_config gs_state)"
    by (simp add: cache_exists_def gs_world_def gs_store_def)
  from ensure_exists_idempotent [of gs_world gs_state] e
  have a: "ensure_exists gs_state gs_world = gs_world" by simp
  have m: "\<not> cache_exists missing_world (state_config gs_state)"
    by (simp add: cache_exists_def missing_world_def missing_store_def)
  have "create_calls (stores (ensure_exists gs_state (ensure_exists gs_state missing_world)) ())
          = 1"
    by (simp add: ensure_exists_def cache_exists_def cache_create_def logger_debug_def
        missing_world_def missing_store_def gs_state_def)
  with e a m show ?thesis by simp
qed

subsection \<open>C10: no archiver at all\<close>

text \<open>
  C10: with no archiver supplied and a cache store that reports no archiver name, the
  loop constructs no Index (it returns the empty mapping) and construction then raises
  \<^verbatim>\<open>IndexError\<close>; no State is returned.
\<close>

theorem empty_scope_index_error:
  assumes "cache_list_archivers w cfg = []"
  shows "index_loop w resolve cfg (cache_list_archivers w cfg) Map.empty = Inr Map.empty
         \<and> State_init w resolve cfg None = Inl IndexError"
  using assms by (simp add: State_init_def bind_err_def)

theorem empty_scope_witness:
  "cache_list_archivers missing_world () = []
   \<and> State_init missing_world resolve_by_name () None = Inl IndexError"
proof -
  have e: "cache_list_archivers missing_world () = []"
    by (simp add: cache_list_archivers_def missing_world_def missing_store_def)
  from empty_scope_index_error [OF e, of resolve_by_name] e show ?thesis by simp
qed

end
